theory Spec2Isabelle
  imports Main "HOL-Library.AList"
begin

section \<open>The in-memory rate limiter of \<open>src/lib/rate-limit.ts\<close>\<close>

text \<open>
  The limiter keeps two pieces of module state that matter to a sequential run: the
  \<open>rateLimitStore\<close>, a JavaScript \<open>Map\<close> from identifier to entry, and the time of the
  last sweep, \<open>lastCleanup\<close>. A JavaScript \<open>Map\<close> keeps its keys unique and in insertion
  order, so the store is an association list: \<open>Map.get\<close> is \<^const>\<open>map_of\<close>,
  \<open>Map.set\<close> is \<^const>\<open>AList.update\<close> (it replaces the value of an existing key where it
  stands and appends a new key at the end), and \<open>Map.delete\<close> is \<^const>\<open>AList.delete\<close>.
  Timestamps, counts and configuration values are JavaScript numbers holding integers
  (milliseconds from \<open>Date.now()\<close>, request counts); they are modelled as \<^typ>\<open>int\<close>, which
  is exact while the values stay below \<open>2^53\<close>.

  The third piece of module state, the map \<open>rateLimitLocks\<close> of promise chains, orders calls
  that overlap in time. In a sequential run (each call is awaited before the next one
  starts) the map is empty before and after every call, \<open>prev\<close> is an already resolved
  promise, and the body of the \<open>try\<close> block runs at once; that body is what is modelled
  here, with the value of \<open>Date.now()\<close> read inside it as the parameter \<open>now\<close>.
\<close>

subsection \<open>Data\<close>

record RateLimitEntry =
  count :: int
  resetTime :: int

record RateLimitConfig =
  maxRequests :: int
  windowMs :: int

record RateLimitResult =
  success :: bool
  remaining :: int
  reset :: int

type_synonym Store = "(string \<times> RateLimitEntry) list"

record Limiter =
  rateLimitStore :: Store
  lastCleanup :: int

text \<open>\<open>__testResetRateLimit\<close>: the state of a freshly loaded module.\<close>

definition testResetRateLimit :: Limiter where
  "testResetRateLimit = \<lparr>rateLimitStore = [], lastCleanup = 0\<rparr>"

subsection \<open>The lazy sweep (lines 76 to 82)\<close>

text \<open>
  The \<open>for ... of rateLimitStore.entries()\<close> loop visits every entry once and deletes the
  visited key from the live map when \<open>now > entry.resetTime\<close>. The first list is what is
  left to visit, the second the live store.
\<close>

fun cleanup_loop :: "int \<Rightarrow> Store \<Rightarrow> Store \<Rightarrow> Store" where
  "cleanup_loop now [] store = store"
| "cleanup_loop now ((key, entry) # rest) store =
     cleanup_loop now rest (if now > resetTime entry then AList.delete key store else store)"

definition lazyCleanup :: "int \<Rightarrow> Limiter \<Rightarrow> Limiter" where
  "lazyCleanup now s =
     (if now - lastCleanup s > 5 * 60 * 1000
      then s\<lparr>lastCleanup := now,
             rateLimitStore := cleanup_loop now (rateLimitStore s) (rateLimitStore s)\<rparr>
      else s)"

subsection \<open>The fixed-window step (lines 84 to 117)\<close>

text \<open>
  \<open>!entry || now > entry.resetTime\<close> short-circuits, so \<^term>\<open>the entry\<close> is only read
  when the entry exists.
\<close>

definition admit :: "string \<Rightarrow> RateLimitConfig \<Rightarrow> int \<Rightarrow> Limiter \<Rightarrow> RateLimitResult \<times> Limiter" where
  "admit identifier config now s =
     (let entry = map_of (rateLimitStore s) identifier in
      if entry = None \<or> now > resetTime (the entry) then
        (\<lparr>success = True, remaining = maxRequests config - 1, reset = now + windowMs config\<rparr>,
         s\<lparr>rateLimitStore :=
             AList.update identifier \<lparr>count = 1, resetTime = now + windowMs config\<rparr>
               (rateLimitStore s)\<rparr>)
      else if count (the entry) \<ge> maxRequests config then
        (\<lparr>success = False, remaining = 0, reset = resetTime (the entry)\<rparr>, s)
      else
        (let newCount = count (the entry) + 1 in
         (\<lparr>success = True, remaining = maxRequests config - newCount,
           reset = resetTime (the entry)\<rparr>,
          s\<lparr>rateLimitStore :=
              AList.update identifier \<lparr>count = newCount, resetTime = resetTime (the entry)\<rparr>
                (rateLimitStore s)\<rparr>)))"

text \<open>The local path of \<open>checkRateLimit\<close>: the sweep, then the fixed-window step.\<close>

definition checkRateLimit_local ::
    "string \<Rightarrow> RateLimitConfig \<Rightarrow> int \<Rightarrow> Limiter \<Rightarrow> RateLimitResult \<times> Limiter" where
  "checkRateLimit_local identifier config now s = admit identifier config now (lazyCleanup now s)"

text \<open>
  The keys of a JavaScript \<open>Map\<close> are unique; this is the representation invariant of the
  store. It holds after \<open>__testResetRateLimit\<close> and every call keeps it.
\<close>

definition unique_keys :: "Limiter \<Rightarrow> bool" where
  "unique_keys s = distinct (map fst (rateLimitStore s))"

subsection \<open>Backend selection (lines 43 to 61)\<close>

text \<open>
  The environment variables read by the function. \<open>toUpperCase\<close> is modelled on the ASCII
  letters; other characters are left as they are, so a mode spelled with a letter outside
  ASCII that JavaScript maps to an ASCII capital is not covered.
\<close>

record Env =
  RATE_LIMIT_MODE :: "string option"
  NODE_ENV :: "string option"

definition upper_char :: "char \<Rightarrow> char" where
  "upper_char c =
     (if (97::nat) \<le> of_char c \<and> of_char c \<le> (122::nat)
      then char_of (of_char c - (32::nat)) else c)"

definition toUpperCase :: "string \<Rightarrow> string" where
  "toUpperCase s = map upper_char s"

definition mode :: "Env \<Rightarrow> string" where
  "mode env =
     toUpperCase (case RATE_LIMIT_MODE env of
                    None \<Rightarrow> ''INMEM''
                  | Some m \<Rightarrow> if m = [] then ''INMEM'' else m)"

datatype 'err console = ConsoleError 'err | ConsoleWarn 'err

text \<open>
  The adapter \<open>./rate-limit-upstash\<close> is not part of the limiter: what the dynamic import
  and the call \<open>upstashLimit(identifier, config)\<close> produce is the parameter
  \<open>upstashLimit\<close>, \<^term>\<open>Inl err\<close> when either of them throws \<open>err\<close>. A thrown error of
  \<open>checkRateLimit\<close> itself is \<^term>\<open>Inl err\<close> in the first component of the result; the
  third component lists the calls to \<open>console.error\<close> and \<open>console.warn\<close>.
\<close>

definition checkRateLimit ::
    "Env \<Rightarrow> (string \<Rightarrow> RateLimitConfig \<Rightarrow> 'err + RateLimitResult) \<Rightarrow>
     string \<Rightarrow> RateLimitConfig \<Rightarrow> int \<Rightarrow> Limiter \<Rightarrow>
     ('err + RateLimitResult) \<times> Limiter \<times> 'err console list" where
  "checkRateLimit env upstashLimit identifier config now s =
     (if mode env = ''UPSTASH'' then
        (case upstashLimit identifier config of
           Inr r \<Rightarrow> (Inr r, s, [])
         | Inl err \<Rightarrow>
             if NODE_ENV env = Some ''production'' then (Inl err, s, [ConsoleError err])
             else (let (r, s') = checkRateLimit_local identifier config now s
                   in (Inr r, s', [ConsoleWarn err])))
      else (let (r, s') = checkRateLimit_local identifier config now s in (Inr r, s', [])))"

subsection \<open>Sequences of calls\<close>

record Call =
  ident :: string
  cfg :: RateLimitConfig
  at :: int

text \<open>Awaiting each call before the next one starts; the results in call order.\<close>

fun run_calls :: "Limiter \<Rightarrow> Call list \<Rightarrow> RateLimitResult list \<times> Limiter" where
  "run_calls s [] = ([], s)"
| "run_calls s (c # cs) =
     (let (r, s') = checkRateLimit_local (ident c) (cfg c) (at c) s;
          (rs, s'') = run_calls s' cs
      in (r # rs, s''))"

text \<open>The same run with the sweep left out of every call: the fixed-window step alone.\<close>

fun run_admit :: "Limiter \<Rightarrow> Call list \<Rightarrow> RateLimitResult list \<times> Limiter" where
  "run_admit s [] = ([], s)"
| "run_admit s (c # cs) =
     (let (r, s') = admit (ident c) (cfg c) (at c) s;
          (rs, s'') = run_admit s' cs
      in (r # rs, s''))"

text \<open>The results that belong to the calls of one identifier.\<close>

definition results_of :: "string \<Rightarrow> Call list \<Rightarrow> RateLimitResult list \<Rightarrow> RateLimitResult list" where
  "results_of k cs rs = map snd (filter (\<lambda>(c, r). ident c = k) (zip cs rs))"

text \<open>
  Two notions used to compare runs. An entry that is absent and an entry whose window has
  expired (\<open>now > resetTime\<close>, the test of the code) are treated alike by a call for its
  key. Two states agree on a key at a time when they hold the same entry for it or both
  hold nothing that is live.
\<close>

definition expired_or_absent :: "int \<Rightarrow> RateLimitEntry option \<Rightarrow> bool" where
  "expired_or_absent now v = (case v of None \<Rightarrow> True | Some e \<Rightarrow> now > resetTime e)"

definition same_window :: "int \<Rightarrow> string \<Rightarrow> Limiter \<Rightarrow> Limiter \<Rightarrow> bool" where
  "same_window now k s1 s2 =
     (map_of (rateLimitStore s1) k = map_of (rateLimitStore s2) k \<or>
      (expired_or_absent now (map_of (rateLimitStore s1) k) \<and>
       expired_or_absent now (map_of (rateLimitStore s2) k)))"

subsection \<open>\<open>getClientIP\<close> (lines 144 to 161)\<close>

text \<open>
  \<open>request.headers.get(name)\<close> is \<open>null\<close> for an absent header and the header's value
  otherwise; the map is keyed by the lower-case header name. Header values are byte
  strings, one \<^typ>\<open>char\<close> per code unit. A string is truthy when it is neither \<open>null\<close>
  nor empty.
\<close>

type_synonym Headers = "string \<rightharpoonup> string"

record Request =
  headers :: Headers

definition truthy :: "string option \<Rightarrow> bool" where
  "truthy v = (v \<noteq> None \<and> v \<noteq> Some [])"

text \<open>\<open>s.split(',')\<close>: the pieces between the separators, empty pieces included.\<close>

fun split_acc :: "char \<Rightarrow> string \<Rightarrow> string \<Rightarrow> string list" where
  "split_acc sep cur [] = [rev cur]"
| "split_acc sep cur (x # xs) =
     (if x = sep then rev cur # split_acc sep [] xs else split_acc sep (x # cur) xs)"

definition split :: "char \<Rightarrow> string \<Rightarrow> string list" where
  "split sep s = split_acc sep [] s"

text \<open>
  \<open>trim\<close> removes white space and line terminators at both ends; among the code units
  below 256 these are tab, line feed, vertical tab, form feed, carriage return, space and
  the no-break space.
\<close>

definition is_space :: "char \<Rightarrow> bool" where
  "is_space c = ((of_char c :: nat) \<in> {9, 10, 11, 12, 13, 32, 160})"

definition trim :: "string \<Rightarrow> string" where
  "trim s = rev (dropWhile is_space (rev (dropWhile is_space s)))"

definition getClientIP :: "Request \<Rightarrow> string" where
  "getClientIP request =
     (let cfIp = headers request ''cf-connecting-ip'' in
      if truthy cfIp then the cfIp
      else
        (let realIp = headers request ''x-real-ip'' in
         if truthy realIp then the realIp
         else
           (let forwarded = headers request ''x-forwarded-for'' in
            if truthy forwarded then
              (let parts = filter (\<lambda>p. p \<noteq> []) (map trim (split (CHR '','') (the forwarded)))
               in if length parts > 0 then parts ! 0 else ''127.0.0.1'')
            else ''127.0.0.1'')))"

text \<open>
  \<open>parts.join(sep)\<close>, the inverse of \<open>split\<close>; it is used only to state that \<open>split\<close> cuts
  the string at the separators and nowhere else.
\<close>

fun join :: "char \<Rightarrow> string list \<Rightarrow> string" where
  "join sep [] = []"
| "join sep [p] = p"
| "join sep (p # q # ps) = p @ sep # join sep (q # ps)"

section \<open>Properties\<close>

subsection \<open>The store\<close>

lemma cleanup_loop_filter:
  "cleanup_loop now es st =
     filter (\<lambda>(k, v). \<not> (\<exists>e. (k, e) \<in> set es \<and> now > resetTime e)) st"
proof (induction es arbitrary: st)
  case Nil
  show ?case by simp
next
  case (Cons p es)
  obtain key entry where p: "p = (key, entry)" by (cases p)
  show ?case
  proof (cases "now > resetTime entry")
    case True
    have "cleanup_loop now (p # es) st = cleanup_loop now es (AList.delete key st)"
      using True p by simp
    also have "\<dots> = filter (\<lambda>(k, v). \<not> (\<exists>e. (k, e) \<in> set es \<and> now > resetTime e))
                      (AList.delete key st)"
      by (rule Cons.IH)
    also have "\<dots> = filter (\<lambda>(k, v). \<not> (\<exists>e. (k, e) \<in> set (p # es) \<and> now > resetTime e)) st"
      using True p by (auto simp: AList.delete_eq intro!: filter_cong)
    finally show ?thesis .
  next
    case False
    have "cleanup_loop now (p # es) st = cleanup_loop now es st"
      using False p by simp
    also have "\<dots> = filter (\<lambda>(k, v). \<not> (\<exists>e. (k, e) \<in> set es \<and> now > resetTime e)) st"
      by (rule Cons.IH)
    also have "\<dots> = filter (\<lambda>(k, v). \<not> (\<exists>e. (k, e) \<in> set (p # es) \<and> now > resetTime e)) st"
      using False p by (auto intro!: filter_cong)
    finally show ?thesis .
  qed
qed

lemma sweep_filter:
  assumes "distinct (map fst st)"
  shows "cleanup_loop now st st = filter (\<lambda>(k, e). \<not> now > resetTime e) st"
proof -
  have "filter (\<lambda>(k, v). \<not> (\<exists>e. (k, e) \<in> set st \<and> now > resetTime e)) st =
        filter (\<lambda>(k, e). \<not> now > resetTime e) st"
  proof (rule filter_cong [OF refl])
    fix x assume x: "x \<in> set st"
    obtain k v where kv: "x = (k, v)" by (cases x)
    have "(\<exists>e. (k, e) \<in> set st \<and> now > resetTime e) \<longleftrightarrow> now > resetTime v"
    proof
      assume "\<exists>e. (k, e) \<in> set st \<and> now > resetTime e"
      then obtain e where e: "(k, e) \<in> set st" "now > resetTime e" by auto
      from assms e(1) x kv have "e = v" by (metis eq_key_imp_eq_value)
      with e(2) show "now > resetTime v" by simp
    next
      assume "now > resetTime v"
      with x kv show "\<exists>e. (k, e) \<in> set st \<and> now > resetTime e" by auto
    qed
    then show "(case x of (k, v) \<Rightarrow> \<not> (\<exists>e. (k, e) \<in> set st \<and> now > resetTime e)) =
               (case x of (k, e) \<Rightarrow> \<not> now > resetTime e)"
      unfolding kv prod.case by blast
  qed
  then show ?thesis by (simp add: cleanup_loop_filter)
qed

lemma map_of_filter_distinct:
  "distinct (map fst st) \<Longrightarrow>
   map_of (filter (\<lambda>(k, e). P e) st) k =
     (case map_of st k of None \<Rightarrow> None | Some e \<Rightarrow> if P e then Some e else None)"
proof (induction st)
  case Nil
  show ?case by simp
next
  case (Cons p st)
  obtain k' e' where p: "p = (k', e')" by (cases p)
  from Cons.prems p have notin: "k' \<notin> fst ` set st" and d: "distinct (map fst st)" by auto
  from notin have none: "map_of st k' = None" by (simp add: map_of_eq_None_iff)
  show ?case using Cons.IH [OF d] p none by (auto split: option.splits)
qed

lemma lookup_lazyCleanup:
  assumes "unique_keys s"
  shows "map_of (rateLimitStore (lazyCleanup now s)) k =
     (if now - lastCleanup s > 300000
      then (case map_of (rateLimitStore s) k of
              None \<Rightarrow> None
            | Some e \<Rightarrow> if now > resetTime e then None else Some e)
      else map_of (rateLimitStore s) k)"
  using assms
  by (auto simp: lazyCleanup_def unique_keys_def sweep_filter map_of_filter_distinct split: option.splits)

lemma unique_keys_lazyCleanup: "unique_keys s \<Longrightarrow> unique_keys (lazyCleanup now s)"
  by (simp add: lazyCleanup_def unique_keys_def sweep_filter distinct_map_filter)

lemma unique_keys_admit: "unique_keys s \<Longrightarrow> unique_keys (snd (admit k c now s))"
  by (simp add: admit_def unique_keys_def Let_def distinct_update)

lemma unique_keys_checkRateLimit_local: "unique_keys s \<Longrightarrow> unique_keys (snd (checkRateLimit_local k c now s))"
  by (simp add: checkRateLimit_local_def unique_keys_admit unique_keys_lazyCleanup)

lemma unique_keys_reset: "unique_keys testResetRateLimit"
  by (simp add: unique_keys_def testResetRateLimit_def)

lemma lastCleanup_admit: "lastCleanup (snd (admit k c now s)) = lastCleanup s"
  by (simp add: admit_def Let_def)

lemma lookup_admit_other:
  "k' \<noteq> k \<Longrightarrow> map_of (rateLimitStore (snd (admit k c now s))) k' = map_of (rateLimitStore s) k'"
  by (simp add: admit_def Let_def update_conv')

lemma admit_None:
  "map_of (rateLimitStore s) k = None \<Longrightarrow>
   fst (admit k c now s) = \<lparr>success = True, remaining = maxRequests c - 1, reset = now + windowMs c\<rparr> \<and>
   map_of (rateLimitStore (snd (admit k c now s))) k = Some \<lparr>count = 1, resetTime = now + windowMs c\<rparr>"
  by (simp add: admit_def Let_def update_conv')

lemma admit_Some:
  "map_of (rateLimitStore s) k = Some e \<Longrightarrow>
   admit k c now s =
     (if now > resetTime e then
        (\<lparr>success = True, remaining = maxRequests c - 1, reset = now + windowMs c\<rparr>,
         s\<lparr>rateLimitStore := AList.update k \<lparr>count = 1, resetTime = now + windowMs c\<rparr> (rateLimitStore s)\<rparr>)
      else if count e \<ge> maxRequests c then
        (\<lparr>success = False, remaining = 0, reset = resetTime e\<rparr>, s)
      else
        (\<lparr>success = True, remaining = maxRequests c - (count e + 1), reset = resetTime e\<rparr>,
         s\<lparr>rateLimitStore := AList.update k \<lparr>count = count e + 1, resetTime = resetTime e\<rparr> (rateLimitStore s)\<rparr>))"
  by (simp add: admit_def Let_def)

lemma lookup_lazyCleanup_live:
  assumes "unique_keys s" "map_of (rateLimitStore s) k = Some e" "\<not> now > resetTime e"
  shows "map_of (rateLimitStore (lazyCleanup now s)) k = Some e"
  using assms by (simp add: lookup_lazyCleanup)

lemma map_of_filter_key:
  "map_of (filter (\<lambda>(k, v). P k) xs) k = (if P k then map_of xs k else None)"
  by (induction xs) auto

lemma lookup_lazyCleanup_cases:
  "map_of (rateLimitStore (lazyCleanup now s)) k = map_of (rateLimitStore s) k \<or>
   map_of (rateLimitStore (lazyCleanup now s)) k = None"
  by (simp add: lazyCleanup_def cleanup_loop_filter map_of_filter_key)

subsection \<open>One call, seen from one key\<close>

lemma run_calls_Cons:
  "fst (run_calls s (c # cs)) =
     fst (checkRateLimit_local (ident c) (cfg c) (at c) s) #
     fst (run_calls (snd (checkRateLimit_local (ident c) (cfg c) (at c) s)) cs)"
  "snd (run_calls s (c # cs)) =
     snd (run_calls (snd (checkRateLimit_local (ident c) (cfg c) (at c) s)) cs)"
  by (simp_all add: case_prod_beta Let_def)

lemma local_fresh:
  assumes "expired_or_absent now (map_of (rateLimitStore s) k)"
  shows "fst (checkRateLimit_local k c now s) =
           \<lparr>success = True, remaining = maxRequests c - 1, reset = now + windowMs c\<rparr> \<and>
         map_of (rateLimitStore (snd (checkRateLimit_local k c now s))) k =
           Some \<lparr>count = 1, resetTime = now + windowMs c\<rparr>"
proof -
  let ?s = "lazyCleanup now s"
  have "expired_or_absent now (map_of (rateLimitStore ?s) k)"
    using lookup_lazyCleanup_cases [of now s k] assms
    by (auto simp: expired_or_absent_def)
  then have "fst (admit k c now ?s) =
           \<lparr>success = True, remaining = maxRequests c - 1, reset = now + windowMs c\<rparr> \<and>
         map_of (rateLimitStore (snd (admit k c now ?s))) k =
           Some \<lparr>count = 1, resetTime = now + windowMs c\<rparr>"
    by (cases "map_of (rateLimitStore ?s) k")
      (simp_all add: expired_or_absent_def admit_None admit_Some update_conv')
  then show ?thesis by (simp add: checkRateLimit_local_def)
qed

lemma local_live:
  assumes "unique_keys s" and "map_of (rateLimitStore s) k = Some e" and "\<not> now > resetTime e"
  shows "fst (checkRateLimit_local k c now s) =
           (if count e \<ge> maxRequests c
            then \<lparr>success = False, remaining = 0, reset = resetTime e\<rparr>
            else \<lparr>success = True, remaining = maxRequests c - (count e + 1), reset = resetTime e\<rparr>) \<and>
         map_of (rateLimitStore (snd (checkRateLimit_local k c now s))) k =
           (if count e \<ge> maxRequests c then Some e
            else Some \<lparr>count = count e + 1, resetTime = resetTime e\<rparr>)"
proof -
  have "map_of (rateLimitStore (lazyCleanup now s)) k = Some e"
    using assms by (simp add: lookup_lazyCleanup_live)
  then show ?thesis
    using assms(3) by (simp add: checkRateLimit_local_def admit_Some update_conv')
qed

lemma local_other:
  assumes "unique_keys s" and "k' \<noteq> k"
  shows "map_of (rateLimitStore (snd (checkRateLimit_local k' c now s))) k =
           map_of (rateLimitStore s) k \<or>
         (expired_or_absent now (map_of (rateLimitStore s) k) \<and>
          map_of (rateLimitStore (snd (checkRateLimit_local k' c now s))) k = None)"
proof -
  have "map_of (rateLimitStore (snd (checkRateLimit_local k' c now s))) k =
        map_of (rateLimitStore (lazyCleanup now s)) k"
    using assms(2) by (simp add: checkRateLimit_local_def lookup_admit_other)
  then show ?thesis
    using assms(1)
    by (auto simp: lookup_lazyCleanup expired_or_absent_def split: option.splits if_splits)
qed

lemma expired_or_absent_mono:
  "expired_or_absent t v \<Longrightarrow> t \<le> t' \<Longrightarrow> expired_or_absent t' v"
  by (auto simp: expired_or_absent_def split: option.splits)

lemma same_window_mono: "same_window t k s1 s2 \<Longrightarrow> t \<le> t' \<Longrightarrow> same_window t' k s1 s2"
  by (auto simp: same_window_def intro: expired_or_absent_mono)

lemma same_window_same_key:
  assumes "unique_keys s1" and "unique_keys s2" and "same_window now k s1 s2"
  shows "fst (checkRateLimit_local k c now s1) = fst (checkRateLimit_local k c now s2) \<and>
         map_of (rateLimitStore (snd (checkRateLimit_local k c now s1))) k =
         map_of (rateLimitStore (snd (checkRateLimit_local k c now s2))) k"
proof (cases "expired_or_absent now (map_of (rateLimitStore s1) k)")
  case True
  with assms(3) have "expired_or_absent now (map_of (rateLimitStore s2) k)"
    by (auto simp: same_window_def)
  with True show ?thesis by (simp add: local_fresh)
next
  case False
  then obtain e where e: "map_of (rateLimitStore s1) k = Some e" "\<not> now > resetTime e"
    by (auto simp: expired_or_absent_def split: option.splits)
  with False assms(3) have "map_of (rateLimitStore s2) k = Some e"
    by (auto simp: same_window_def)
  with e assms(1,2) show ?thesis by (simp add: local_live)
qed

lemma same_window_other_key:
  assumes "unique_keys s1" and "k' \<noteq> k" and "same_window now k s1 s2"
  shows "same_window now k (snd (checkRateLimit_local k' c now s1)) s2"
  using local_other [OF assms(1,2), of c now] assms(3)
  by (auto simp: same_window_def expired_or_absent_def)

lemma results_of_Cons:
  "results_of k (c # cs) (r # rs) =
     (if ident c = k then r # results_of k cs rs else results_of k cs rs)"
  by (simp add: results_of_def)

lemma results_of_Nil: "results_of k [] rs = []"
  by (simp add: results_of_def)

lemma interleaving:
  assumes "unique_keys s1" and "unique_keys s2" and "same_window t k s1 s2"
    and "sorted (map at cs)" and "\<forall>c \<in> set cs. t \<le> at c"
  shows "results_of k cs (fst (run_calls s1 cs)) =
         fst (run_calls s2 (filter (\<lambda>c. ident c = k) cs))"
  using assms
proof (induction cs arbitrary: s1 s2 t)
  case Nil
  show ?case by (simp add: results_of_Nil)
next
  case (Cons c cs)
  let ?s1 = "snd (checkRateLimit_local (ident c) (cfg c) (at c) s1)"
  have w1: "unique_keys ?s1" using Cons.prems(1) by (rule unique_keys_checkRateLimit_local)
  have sw: "same_window (at c) k s1 s2"
    using Cons.prems(3,5) by (auto intro: same_window_mono)
  have srt: "sorted (map at cs)" and later: "\<forall>d \<in> set cs. at c \<le> at d"
    using Cons.prems(4) by simp_all
  show ?case
  proof (cases "ident c = k")
    case True
    let ?s2 = "snd (checkRateLimit_local (ident c) (cfg c) (at c) s2)"
    have w2: "unique_keys ?s2" using Cons.prems(2) by (rule unique_keys_checkRateLimit_local)
    from same_window_same_key [OF Cons.prems(1,2) sw, of "cfg c"] True
    have r: "fst (checkRateLimit_local (ident c) (cfg c) (at c) s1) =
             fst (checkRateLimit_local (ident c) (cfg c) (at c) s2)"
      and l: "map_of (rateLimitStore ?s1) k = map_of (rateLimitStore ?s2) k"
      by simp_all
    from l have "same_window (at c) k ?s1 ?s2" by (simp add: same_window_def)
    from Cons.IH [OF w1 w2 this srt later]
    show ?thesis using True r by (simp add: run_calls_Cons results_of_Cons del: run_calls.simps(2))
  next
    case False
    then have "same_window (at c) k ?s1 s2"
      using same_window_other_key [OF Cons.prems(1) _ sw] by blast
    from Cons.IH [OF w1 Cons.prems(2) this srt later]
    show ?thesis using False by (simp add: run_calls_Cons results_of_Cons del: run_calls.simps(2))
  qed
qed

lemma same_window_refl: "same_window t k s s"
  by (simp add: same_window_def)

subsection \<open>Local mode\<close>

text \<open>
  With any mode but \<open>UPSTASH\<close> (the default is \<open>INMEM\<close>) \<open>checkRateLimit\<close> is its local
  path: it returns what \<^const>\<open>checkRateLimit_local\<close> returns and logs nothing. The
  properties of local mode below are stated on \<^const>\<open>checkRateLimit_local\<close>.
\<close>

lemma mode_default: "mode \<lparr>RATE_LIMIT_MODE = None, NODE_ENV = e\<rparr> = ''INMEM''"
  by code_simp

lemma checkRateLimit_local_mode:
  "mode env \<noteq> ''UPSTASH'' \<Longrightarrow>
   checkRateLimit env upstashLimit identifier config now s =
     (Inr (fst (checkRateLimit_local identifier config now s)),
      snd (checkRateLimit_local identifier config now s), [])"
  by (simp add: checkRateLimit_def split: prod.splits)

lemma unique_keys_run_calls: "unique_keys s \<Longrightarrow> unique_keys (snd (run_calls s cs))"
proof (induction cs arbitrary: s)
  case Nil
  then show ?case by simp
next
  case (Cons c cs)
  have "unique_keys (snd (checkRateLimit_local (ident c) (cfg c) (at c) s))"
    using Cons.prems by (rule unique_keys_checkRateLimit_local)
  then have "unique_keys (snd (run_calls (snd (checkRateLimit_local (ident c) (cfg c) (at c) s)) cs))"
    by (rule Cons.IH)
  then show ?case by (simp add: run_calls_Cons del: run_calls.simps(2))
qed

subsection \<open>A first call opens a window\<close>

text \<open>
  Claim C2. When the store has no entry for the key, a call in local mode is admitted with
  \<open>remaining = maxRequests - 1\<close> and \<open>reset = now + windowMs\<close>, and afterwards the store
  maps the key to a window with \<open>count = 1\<close> and \<open>resetTime = now + windowMs\<close>.
\<close>

theorem first_call_opens_window:
  assumes "map_of (rateLimitStore s) key = None"
  shows "fst (checkRateLimit_local key config now s) =
           \<lparr>success = True, remaining = maxRequests config - 1, reset = now + windowMs config\<rparr> \<and>
         map_of (rateLimitStore (snd (checkRateLimit_local key config now s))) key =
           Some \<lparr>count = 1, resetTime = now + windowMs config\<rparr>"
proof -
  have "map_of (rateLimitStore (lazyCleanup now s)) key = None"
    using assms by (simp add: lazyCleanup_def cleanup_loop_filter map_of_eq_None_iff image_iff)
  then show ?thesis
    unfolding checkRateLimit_local_def by (rule admit_None)
qed

theorem first_call_opens_window_witness:
  "map_of (rateLimitStore testResetRateLimit) ''10.0.0.1'' = None \<and>
   fst (checkRateLimit_local ''10.0.0.1'' \<lparr>maxRequests = 3, windowMs = 3600000\<rparr> 1000
          testResetRateLimit) =
     \<lparr>success = True, remaining = 2, reset = 3601000\<rparr> \<and>
   map_of (rateLimitStore (snd (checkRateLimit_local ''10.0.0.1''
          \<lparr>maxRequests = 3, windowMs = 3600000\<rparr> 1000 testResetRateLimit))) ''10.0.0.1'' =
     Some \<lparr>count = 1, resetTime = 3601000\<rparr>"
proof -
  have h: "map_of (rateLimitStore testResetRateLimit) ''10.0.0.1'' = None"
    by (simp add: testResetRateLimit_def)
  show ?thesis
    using h first_call_opens_window [OF h, of "\<lparr>maxRequests = 3, windowMs = 3600000\<rparr>" 1000]
    by simp
qed

subsection \<open>A rejected call changes nothing for its key\<close>

text \<open>
  Claim C3. When the stored window of the key is live (\<open>now\<close> before its \<open>resetTime\<close>) and
  its count has reached \<open>maxRequests\<close>, a call in local mode returns \<open>success = false\<close>,
  \<open>remaining = 0\<close> and the stored \<open>resetTime\<close>, and the entry of the key is the same
  afterwards: a rejected call consumes no quota and does not move the reset time.
\<close>

theorem exhausted_window_rejects:
  assumes "unique_keys s"
    and "map_of (rateLimitStore s) key = Some e"
    and "now < resetTime e"
    and "count e \<ge> maxRequests config"
  shows "fst (checkRateLimit_local key config now s) =
           \<lparr>success = False, remaining = 0, reset = resetTime e\<rparr> \<and>
         map_of (rateLimitStore (snd (checkRateLimit_local key config now s))) key = Some e"
proof -
  have "map_of (rateLimitStore (lazyCleanup now s)) key = Some e"
    using assms(1-3) by (simp add: lookup_lazyCleanup_live)
  then show ?thesis
    using assms(3,4) by (simp add: checkRateLimit_local_def admit_Some)
qed

theorem exhausted_window_rejects_witness:
  "unique_keys \<lparr>rateLimitStore = [(''10.0.0.1'', \<lparr>count = 3, resetTime = 3601000\<rparr>)], lastCleanup = 1000\<rparr> \<and>
   map_of (rateLimitStore \<lparr>rateLimitStore = [(''10.0.0.1'', \<lparr>count = 3, resetTime = 3601000\<rparr>)],
        lastCleanup = 1000\<rparr>) ''10.0.0.1'' = Some \<lparr>count = 3, resetTime = 3601000\<rparr> \<and>
   (2000::int) < resetTime \<lparr>count = 3, resetTime = 3601000\<rparr> \<and>
   count \<lparr>count = 3, resetTime = 3601000\<rparr> \<ge> maxRequests \<lparr>maxRequests = 3, windowMs = 3600000\<rparr> \<and>
   fst (checkRateLimit_local ''10.0.0.1'' \<lparr>maxRequests = 3, windowMs = 3600000\<rparr> 2000
     \<lparr>rateLimitStore = [(''10.0.0.1'', \<lparr>count = 3, resetTime = 3601000\<rparr>)], lastCleanup = 1000\<rparr>) =
     \<lparr>success = False, remaining = 0, reset = 3601000\<rparr> \<and>
   map_of (rateLimitStore (snd (checkRateLimit_local ''10.0.0.1'' \<lparr>maxRequests = 3, windowMs = 3600000\<rparr> 2000
     \<lparr>rateLimitStore = [(''10.0.0.1'', \<lparr>count = 3, resetTime = 3601000\<rparr>)], lastCleanup = 1000\<rparr>)))
     ''10.0.0.1'' = Some \<lparr>count = 3, resetTime = 3601000\<rparr>"
  using exhausted_window_rejects [of "\<lparr>rateLimitStore = [(''10.0.0.1'', \<lparr>count = 3, resetTime = 3601000\<rparr>)], lastCleanup = 1000\<rparr>"
      "''10.0.0.1''" "\<lparr>count = 3, resetTime = 3601000\<rparr>" 2000 "\<lparr>maxRequests = 3, windowMs = 3600000\<rparr>"]
  by (simp add: unique_keys_def)

subsection \<open>Expiry\<close>

text \<open>
  Claim C4 as stated, at the boundary. A window opened at 1000000 with \<open>windowMs = 60000\<close>
  has \<open>resetTime = 1060000\<close>. A second call exactly at 1060000 is counted in the old
  window (\<open>remaining = 1\<close>, stored count 2) when \<open>maxRequests = 3\<close>, and is rejected when
  \<open>maxRequests = 1\<close>: the test of the code is \<open>now > entry.resetTime\<close>.
\<close>

theorem boundary_arrival_counterexample:
  "run_calls testResetRateLimit
     [\<lparr>ident = ''10.0.0.1'', cfg = \<lparr>maxRequests = 3, windowMs = 60000\<rparr>, at = 1000000\<rparr>,
      \<lparr>ident = ''10.0.0.1'', cfg = \<lparr>maxRequests = 3, windowMs = 60000\<rparr>, at = 1060000\<rparr>] =
   ([\<lparr>success = True, remaining = 2, reset = 1060000\<rparr>,
     \<lparr>success = True, remaining = 1, reset = 1060000\<rparr>],
    \<lparr>rateLimitStore = [(''10.0.0.1'', \<lparr>count = 2, resetTime = 1060000\<rparr>)], lastCleanup = 1000000\<rparr>) \<and>
   fst (run_calls testResetRateLimit
     [\<lparr>ident = ''10.0.0.1'', cfg = \<lparr>maxRequests = 1, windowMs = 60000\<rparr>, at = 1000000\<rparr>,
      \<lparr>ident = ''10.0.0.1'', cfg = \<lparr>maxRequests = 1, windowMs = 60000\<rparr>, at = 1060000\<rparr>]) =
   [\<lparr>success = True, remaining = 0, reset = 1060000\<rparr>,
    \<lparr>success = False, remaining = 0, reset = 1060000\<rparr>]"
  by (simp add: testResetRateLimit_def checkRateLimit_local_def lazyCleanup_def admit_def Let_def)

text \<open>
  Claim C4, amended. When the store holds an entry for the key with \<open>resetTime < now\<close>, the
  call replaces it by a fresh window with \<open>count = 1\<close> and \<open>resetTime = now + windowMs\<close> and
  is admitted with \<open>remaining = maxRequests - 1\<close>, whatever the old count was. At the exact
  boundary \<open>now = resetTime\<close> the old window is still live: the call is rejected when the
  count has reached \<open>maxRequests\<close> and increments the old count otherwise.
\<close>

theorem expired_window_replaced:
  assumes "unique_keys s" and "map_of (rateLimitStore s) key = Some e"
  shows "(resetTime e < now \<longrightarrow>
            fst (checkRateLimit_local key config now s) =
              \<lparr>success = True, remaining = maxRequests config - 1, reset = now + windowMs config\<rparr> \<and>
            map_of (rateLimitStore (snd (checkRateLimit_local key config now s))) key =
              Some \<lparr>count = 1, resetTime = now + windowMs config\<rparr>) \<and>
         (resetTime e = now \<longrightarrow>
            fst (checkRateLimit_local key config now s) =
              (if count e \<ge> maxRequests config
               then \<lparr>success = False, remaining = 0, reset = resetTime e\<rparr>
               else \<lparr>success = True, remaining = maxRequests config - (count e + 1),
                      reset = resetTime e\<rparr>) \<and>
            map_of (rateLimitStore (snd (checkRateLimit_local key config now s))) key =
              (if count e \<ge> maxRequests config then Some e
               else Some \<lparr>count = count e + 1, resetTime = resetTime e\<rparr>))"
proof (intro conjI impI)
  assume exp: "resetTime e < now"
  let ?s = "lazyCleanup now s"
  consider "map_of (rateLimitStore ?s) key = Some e" | "map_of (rateLimitStore ?s) key = None"
    using lookup_lazyCleanup_cases [of now s key] assms(2) by auto
  then have both: "fst (admit key config now ?s) =
           \<lparr>success = True, remaining = maxRequests config - 1, reset = now + windowMs config\<rparr> \<and>
         map_of (rateLimitStore (snd (admit key config now ?s))) key =
           Some \<lparr>count = 1, resetTime = now + windowMs config\<rparr>"
  proof cases
    case 1
    then show ?thesis using exp by (simp add: admit_Some update_conv')
  next
    case 2
    then show ?thesis by (rule admit_None)
  qed
  from both show "fst (checkRateLimit_local key config now s) =
              \<lparr>success = True, remaining = maxRequests config - 1, reset = now + windowMs config\<rparr>"
    by (simp add: checkRateLimit_local_def)
  from both show "map_of (rateLimitStore (snd (checkRateLimit_local key config now s))) key =
              Some \<lparr>count = 1, resetTime = now + windowMs config\<rparr>"
    by (simp add: checkRateLimit_local_def)
next
  assume eq: "resetTime e = now"
  then have l: "map_of (rateLimitStore (lazyCleanup now s)) key = Some e"
    using assms by (simp add: lookup_lazyCleanup_live)
  show "fst (checkRateLimit_local key config now s) =
              (if count e \<ge> maxRequests config
               then \<lparr>success = False, remaining = 0, reset = resetTime e\<rparr>
               else \<lparr>success = True, remaining = maxRequests config - (count e + 1),
                      reset = resetTime e\<rparr>)"
    using l eq by (simp add: checkRateLimit_local_def admit_Some)
  show "map_of (rateLimitStore (snd (checkRateLimit_local key config now s))) key =
              (if count e \<ge> maxRequests config then Some e
               else Some \<lparr>count = count e + 1, resetTime = resetTime e\<rparr>)"
    using l eq by (simp add: checkRateLimit_local_def admit_Some update_conv')
qed

theorem expired_window_replaced_witness:
  "unique_keys \<lparr>rateLimitStore = [(''10.0.0.1'', \<lparr>count = 3, resetTime = 1060000\<rparr>)],
       lastCleanup = 1000000\<rparr> \<and>
   fst (checkRateLimit_local ''10.0.0.1'' \<lparr>maxRequests = 3, windowMs = 60000\<rparr> 1060001
     \<lparr>rateLimitStore = [(''10.0.0.1'', \<lparr>count = 3, resetTime = 1060000\<rparr>)],
      lastCleanup = 1000000\<rparr>) =
     \<lparr>success = True, remaining = 2, reset = 1120001\<rparr> \<and>
   fst (checkRateLimit_local ''10.0.0.1'' \<lparr>maxRequests = 3, windowMs = 60000\<rparr> 1060000
     \<lparr>rateLimitStore = [(''10.0.0.1'', \<lparr>count = 3, resetTime = 1060000\<rparr>)],
      lastCleanup = 1000000\<rparr>) =
     \<lparr>success = False, remaining = 0, reset = 1060000\<rparr>"
proof -
  let ?e = "\<lparr>count = 3, resetTime = 1060000\<rparr>"
  let ?s = "\<lparr>rateLimitStore = [(''10.0.0.1'', ?e)], lastCleanup = 1000000\<rparr>"
  let ?c = "\<lparr>maxRequests = 3, windowMs = 60000\<rparr>"
  have w: "unique_keys ?s" by (simp add: unique_keys_def)
  have l: "map_of (rateLimitStore ?s) ''10.0.0.1'' = Some ?e" by simp
  show ?thesis
    using w expired_window_replaced [OF w l, of 1060001 ?c]
      expired_window_replaced [OF w l, of 1060000 ?c]
    by simp
qed

subsection \<open>The sweep\<close>

lemma no_sweep_run:
  "\<forall>c \<in> set cs. at c - lastCleanup s \<le> 5 * 60 * 1000 \<Longrightarrow> run_calls s cs = run_admit s cs"
proof (induction cs arbitrary: s)
  case Nil
  show ?case by simp
next
  case (Cons c cs)
  have one: "checkRateLimit_local (ident c) (cfg c) (at c) s = admit (ident c) (cfg c) (at c) s"
    using Cons.prems by (simp add: checkRateLimit_local_def lazyCleanup_def)
  have "lastCleanup (snd (admit (ident c) (cfg c) (at c) s)) = lastCleanup s"
    by (rule lastCleanup_admit)
  with Cons.prems
  have "\<forall>d \<in> set cs. at d - lastCleanup (snd (admit (ident c) (cfg c) (at c) s)) \<le> 5 * 60 * 1000"
    by simp
  then have "run_calls (snd (admit (ident c) (cfg c) (at c) s)) cs =
             run_admit (snd (admit (ident c) (cfg c) (at c) s)) cs"
    by (rule Cons.IH)
  then show ?case using one by (simp add: case_prod_beta)
qed

text \<open>
  Claim C7 as stated, at the boundary. A first call at 1000000 with \<open>windowMs = 3600000\<close>
  leaves one entry with \<open>resetTime = 4600000\<close> and \<open>lastCleanup = 1000000\<close>. A call for
  another identifier exactly at 4600000 comes more than five minutes after the last sweep
  and sweeps, and the entry whose \<open>resetTime\<close> equals \<open>now\<close> is still in the store
  afterwards: the loop deletes when \<open>now > entry.resetTime\<close>.
\<close>

theorem sweep_keeps_boundary_entry_counterexample:
  "run_calls testResetRateLimit
     [\<lparr>ident = ''10.0.0.2'', cfg = \<lparr>maxRequests = 3, windowMs = 3600000\<rparr>, at = 1000000\<rparr>] =
     ([\<lparr>success = True, remaining = 2, reset = 4600000\<rparr>],
      \<lparr>rateLimitStore = [(''10.0.0.2'', \<lparr>count = 1, resetTime = 4600000\<rparr>)],
       lastCleanup = 1000000\<rparr>) \<and>
   (4600000::int) - 1000000 > 5 * 60 * 1000 \<and>
   snd (checkRateLimit_local ''10.0.0.1'' \<lparr>maxRequests = 3, windowMs = 3600000\<rparr> 4600000
     \<lparr>rateLimitStore = [(''10.0.0.2'', \<lparr>count = 1, resetTime = 4600000\<rparr>)],
      lastCleanup = 1000000\<rparr>) =
     \<lparr>rateLimitStore = [(''10.0.0.2'', \<lparr>count = 1, resetTime = 4600000\<rparr>),
                        (''10.0.0.1'', \<lparr>count = 1, resetTime = 8200000\<rparr>)],
      lastCleanup = 4600000\<rparr>"
  by (simp add: testResetRateLimit_def checkRateLimit_local_def lazyCleanup_def admit_def Let_def)

text \<open>
  Claim C7, amended. A call in local mode that comes more than five minutes after the last
  sweep sweeps the whole store once: it deletes exactly the entries with \<open>resetTime < now\<close>
  and keeps, in their order, those with \<open>now \<le> resetTime\<close> (an entry whose \<open>resetTime\<close>
  equals \<open>now\<close> stays); the fixed-window step then runs on the swept store. The call
  records \<open>now\<close> as the time of the sweep, so the calls that follow at times up to
  \<open>now + 300000\<close> do not sweep: each of them is the fixed-window step alone.
\<close>

theorem sweep_removes_expired:
  assumes "unique_keys s" and "now - lastCleanup s > 5 * 60 * 1000"
  shows "checkRateLimit_local identifier config now s =
           admit identifier config now
             (s\<lparr>lastCleanup := now,
                rateLimitStore := filter (\<lambda>(k, e). now \<le> resetTime e) (rateLimitStore s)\<rparr>) \<and>
         lastCleanup (snd (checkRateLimit_local identifier config now s)) = now \<and>
         (\<forall>cs. (\<forall>c \<in> set cs. at c - now \<le> 5 * 60 * 1000) \<longrightarrow>
            run_calls (snd (checkRateLimit_local identifier config now s)) cs =
            run_admit (snd (checkRateLimit_local identifier config now s)) cs)"
proof -
  have f: "filter (\<lambda>(k, e). \<not> now > resetTime e) (rateLimitStore s) =
           filter (\<lambda>(k, e). now \<le> resetTime e) (rateLimitStore s)"
    by (rule filter_cong) auto
  have lc: "lazyCleanup now s =
      s\<lparr>lastCleanup := now,
        rateLimitStore := filter (\<lambda>(k, e). now \<le> resetTime e) (rateLimitStore s)\<rparr>"
    using assms by (simp add: lazyCleanup_def unique_keys_def sweep_filter f)
  have 1: "checkRateLimit_local identifier config now s =
           admit identifier config now
             (s\<lparr>lastCleanup := now,
                rateLimitStore := filter (\<lambda>(k, e). now \<le> resetTime e) (rateLimitStore s)\<rparr>)"
    by (simp add: checkRateLimit_local_def lc)
  have 2: "lastCleanup (snd (checkRateLimit_local identifier config now s)) = now"
    by (simp add: 1 lastCleanup_admit)
  have 3: "run_calls (snd (checkRateLimit_local identifier config now s)) cs =
            run_admit (snd (checkRateLimit_local identifier config now s)) cs"
    if "\<forall>c \<in> set cs. at c - now \<le> 5 * 60 * 1000" for cs
    by (rule no_sweep_run) (use that 2 in simp)
  from 1 2 3 show ?thesis by blast
qed

theorem sweep_removes_expired_witness:
  "unique_keys \<lparr>rateLimitStore = [(''10.0.0.2'', \<lparr>count = 1, resetTime = 4600000\<rparr>),
                          (''10.0.0.3'', \<lparr>count = 2, resetTime = 4599999\<rparr>)],
       lastCleanup = 1000000\<rparr> \<and>
   (4600000::int) - 1000000 > 5 * 60 * 1000 \<and>
   snd (checkRateLimit_local ''10.0.0.1'' \<lparr>maxRequests = 3, windowMs = 3600000\<rparr> 4600000
     \<lparr>rateLimitStore = [(''10.0.0.2'', \<lparr>count = 1, resetTime = 4600000\<rparr>),
                        (''10.0.0.3'', \<lparr>count = 2, resetTime = 4599999\<rparr>)],
      lastCleanup = 1000000\<rparr>) =
     \<lparr>rateLimitStore = [(''10.0.0.2'', \<lparr>count = 1, resetTime = 4600000\<rparr>),
                        (''10.0.0.1'', \<lparr>count = 1, resetTime = 8200000\<rparr>)],
      lastCleanup = 4600000\<rparr> \<and>
   run_calls
     \<lparr>rateLimitStore = [(''10.0.0.2'', \<lparr>count = 1, resetTime = 4600000\<rparr>),
                        (''10.0.0.1'', \<lparr>count = 1, resetTime = 8200000\<rparr>)],
      lastCleanup = 4600000\<rparr>
     [\<lparr>ident = ''10.0.0.3'', cfg = \<lparr>maxRequests = 3, windowMs = 3600000\<rparr>, at = 4900000\<rparr>] =
   run_admit
     \<lparr>rateLimitStore = [(''10.0.0.2'', \<lparr>count = 1, resetTime = 4600000\<rparr>),
                        (''10.0.0.1'', \<lparr>count = 1, resetTime = 8200000\<rparr>)],
      lastCleanup = 4600000\<rparr>
     [\<lparr>ident = ''10.0.0.3'', cfg = \<lparr>maxRequests = 3, windowMs = 3600000\<rparr>, at = 4900000\<rparr>]"
proof -
  let ?s = "\<lparr>rateLimitStore = [(''10.0.0.2'', \<lparr>count = 1, resetTime = 4600000\<rparr>),
                          (''10.0.0.3'', \<lparr>count = 2, resetTime = 4599999\<rparr>)],
       lastCleanup = 1000000\<rparr>"
  let ?c = "\<lparr>maxRequests = 3, windowMs = 3600000\<rparr>"
  let ?cs = "[\<lparr>ident = ''10.0.0.3'', cfg = ?c, at = 4900000\<rparr>]"
  have w: "unique_keys ?s" by (simp add: unique_keys_def)
  have d: "(4600000::int) - lastCleanup ?s > 5 * 60 * 1000" by simp
  note t = sweep_removes_expired [OF w d, of "''10.0.0.1''" ?c]
  have s': "snd (checkRateLimit_local ''10.0.0.1'' ?c 4600000 ?s) =
     \<lparr>rateLimitStore = [(''10.0.0.2'', \<lparr>count = 1, resetTime = 4600000\<rparr>),
                        (''10.0.0.1'', \<lparr>count = 1, resetTime = 8200000\<rparr>)],
      lastCleanup = 4600000\<rparr>"
    unfolding t [THEN conjunct1] by (simp add: admit_def Let_def)
  have n: "run_calls (snd (checkRateLimit_local ''10.0.0.1'' ?c 4600000 ?s)) ?cs =
           run_admit (snd (checkRateLimit_local ''10.0.0.1'' ?c 4600000 ?s)) ?cs"
    by (rule t [THEN conjunct2, THEN conjunct2, rule_format]) simp
  show ?thesis
    using w s' n [unfolded s'] by (simp del: run_calls.simps run_admit.simps)
qed

subsection \<open>Failure of the external backend\<close>

lemma mode_upstash: "mode \<lparr>RATE_LIMIT_MODE = Some ''upstash'', NODE_ENV = e\<rparr> = ''UPSTASH''"
  by code_simp

text \<open>
  Claim C8. When the mode is \<open>UPSTASH\<close> and the adapter fails with \<open>err\<close>: in production
  \<open>checkRateLimit\<close> throws \<open>err\<close> (after \<open>console.error\<close>) and leaves the local state as
  it was; outside production it warns with \<open>console.warn\<close> and returns what the local
  algorithm returns for the same identifier and configuration.
\<close>

theorem upstash_failure_policy:
  assumes "mode env = ''UPSTASH''" and "upstashLimit identifier config = Inl err"
  shows "(NODE_ENV env = Some ''production'' \<longrightarrow>
            checkRateLimit env upstashLimit identifier config now s = (Inl err, s, [ConsoleError err])) \<and>
         (NODE_ENV env \<noteq> Some ''production'' \<longrightarrow>
            checkRateLimit env upstashLimit identifier config now s =
              (Inr (fst (checkRateLimit_local identifier config now s)),
               snd (checkRateLimit_local identifier config now s), [ConsoleWarn err]))"
  using assms by (simp add: checkRateLimit_def split: prod.splits)

theorem upstash_failure_policy_witness:
  "mode \<lparr>RATE_LIMIT_MODE = Some ''upstash'', NODE_ENV = Some ''production''\<rparr> = ''UPSTASH'' \<and>
   checkRateLimit \<lparr>RATE_LIMIT_MODE = Some ''upstash'', NODE_ENV = Some ''production''\<rparr>
     (\<lambda>i c. Inl ''ECONNREFUSED'') ''10.0.0.1'' \<lparr>maxRequests = 3, windowMs = 3600000\<rparr> 1000000
     testResetRateLimit = (Inl ''ECONNREFUSED'', testResetRateLimit, [ConsoleError ''ECONNREFUSED'']) \<and>
   mode \<lparr>RATE_LIMIT_MODE = Some ''upstash'', NODE_ENV = Some ''development''\<rparr> = ''UPSTASH'' \<and>
   checkRateLimit \<lparr>RATE_LIMIT_MODE = Some ''upstash'', NODE_ENV = Some ''development''\<rparr>
     (\<lambda>i c. Inl ''ECONNREFUSED'') ''10.0.0.1'' \<lparr>maxRequests = 3, windowMs = 3600000\<rparr> 1000000
     testResetRateLimit =
     (Inr \<lparr>success = True, remaining = 2, reset = 4600000\<rparr>,
      \<lparr>rateLimitStore = [(''10.0.0.1'', \<lparr>count = 1, resetTime = 4600000\<rparr>)], lastCleanup = 1000000\<rparr>,
      [ConsoleWarn ''ECONNREFUSED''])"
proof -
  let ?up = "\<lambda>(i::string) (c::RateLimitConfig). (Inl ''ECONNREFUSED'' :: string + RateLimitResult)"
  let ?c = "\<lparr>maxRequests = 3, windowMs = 3600000\<rparr>"
  have l: "checkRateLimit_local ''10.0.0.1'' ?c 1000000 testResetRateLimit =
     (\<lparr>success = True, remaining = 2, reset = 4600000\<rparr>,
      \<lparr>rateLimitStore = [(''10.0.0.1'', \<lparr>count = 1, resetTime = 4600000\<rparr>)], lastCleanup = 1000000\<rparr>)"
    by (simp add: testResetRateLimit_def checkRateLimit_local_def lazyCleanup_def admit_def Let_def)
  have u: "?up ''10.0.0.1'' ?c = Inl ''ECONNREFUSED''" by simp
  have p: "NODE_ENV \<lparr>RATE_LIMIT_MODE = Some ''upstash'', NODE_ENV = Some ''production''\<rparr> =
           Some ''production''" by simp
  have q: "NODE_ENV \<lparr>RATE_LIMIT_MODE = Some ''upstash'', NODE_ENV = Some ''development''\<rparr> \<noteq>
           Some ''production''" by simp
  note t1 = upstash_failure_policy [of "\<lparr>RATE_LIMIT_MODE = Some ''upstash'', NODE_ENV = Some ''production''\<rparr>"
      ?up "''10.0.0.1''" ?c "''ECONNREFUSED''" 1000000 testResetRateLimit, OF mode_upstash u]
  note t2 = upstash_failure_policy [of "\<lparr>RATE_LIMIT_MODE = Some ''upstash'', NODE_ENV = Some ''development''\<rparr>"
      ?up "''10.0.0.1''" ?c "''ECONNREFUSED''" 1000000 testResetRateLimit, OF mode_upstash u]
  show ?thesis
    using t1 [THEN conjunct1, rule_format, OF p] t2 [THEN conjunct2, rule_format, OF q]
      mode_upstash l
    by simp
qed

subsection \<open>\<open>getClientIP\<close>\<close>

lemma split_acc_nonempty: "split_acc sep cur s \<noteq> []"
  by (induction s arbitrary: cur) auto

lemma join_split_acc: "join sep (split_acc sep cur s) = rev cur @ s"
proof (induction s arbitrary: cur)
  case Nil
  show ?case by simp
next
  case (Cons x xs)
  show ?case
  proof (cases "x = sep")
    case True
    obtain p ps where ne: "split_acc sep [] xs = p # ps"
      using split_acc_nonempty [of sep "[]" xs] by (cases "split_acc sep [] xs") auto
    have "join sep (p # ps) = xs" using Cons.IH [of "[]"] ne by simp
    then show ?thesis using True ne by simp
  next
    case False
    then show ?thesis using Cons.IH [of "x # cur"] by simp
  qed
qed

lemma join_split: "join sep (split sep s) = s"
  by (simp add: split_def join_split_acc)

lemma split_acc_no_sep:
  "sep \<notin> set cur \<Longrightarrow> \<forall>p \<in> set (split_acc sep cur s). sep \<notin> set p"
proof (induction s arbitrary: cur)
  case Nil
  then show ?case by simp
next
  case (Cons x xs)
  show ?case
  proof (cases "x = sep")
    case True
    have "\<forall>p \<in> set (split_acc sep [] xs). sep \<notin> set p"
      by (rule Cons.IH) simp
    with True Cons.prems show ?thesis by simp
  next
    case False
    have "\<forall>p \<in> set (split_acc sep (x # cur) xs). sep \<notin> set p"
      by (rule Cons.IH) (use False Cons.prems in auto)
    with False show ?thesis by simp
  qed
qed

lemma split_no_sep: "p \<in> set (split sep s) \<Longrightarrow> sep \<notin> set p"
  using split_acc_no_sep [of sep "[]" s] by (simp add: split_def)

lemma last_dropWhile: "dropWhile P xs \<noteq> [] \<Longrightarrow> last (dropWhile P xs) = last xs"
  by (metis takeWhile_dropWhile_id last_appendR)

lemma trim_no_outer_space:
  "trim s \<noteq> [] \<Longrightarrow> \<not> is_space (hd (trim s)) \<and> \<not> is_space (last (trim s))"
proof -
  assume ne: "trim s \<noteq> []"
  let ?a = "dropWhile is_space s"
  let ?b = "dropWhile is_space (rev ?a)"
  have t: "trim s = rev ?b" by (simp add: trim_def)
  from ne t have bne: "?b \<noteq> []" by simp
  then have hb: "\<not> is_space (hd ?b)" by (rule hd_dropWhile)
  have l: "last (trim s) = hd ?b" using bne by (simp add: t last_rev)
  have ane: "?a \<noteq> []"
  proof
    assume "?a = []"
    then have "?b = []" by (simp only: rev.simps dropWhile.simps)
    with bne show False ..
  qed
  then have ha: "\<not> is_space (hd ?a)" by (rule hd_dropWhile)
  have "last (rev ?a) = hd ?a" using ane by (simp add: last_rev)
  have "last ?b = last (rev ?a)" using bne by (rule last_dropWhile)
  then have "hd (rev ?b) = hd ?a" using bne ane by (simp add: hd_rev last_rev)
  with ha hb l t show ?thesis by simp
qed

lemma first_filter:
  "i < length xs \<Longrightarrow> P (xs ! i) \<Longrightarrow> \<forall>j<i. \<not> P (xs ! j) \<Longrightarrow>
   filter P xs \<noteq> [] \<and> filter P xs ! 0 = xs ! i"
proof (induction xs arbitrary: i)
  case Nil
  then show ?case by simp
next
  case (Cons x xs)
  show ?case
  proof (cases i)
    case 0
    with Cons.prems show ?thesis by simp
  next
    case (Suc n)
    with Cons.prems have nx: "\<not> P x" by auto
    have "filter P xs \<noteq> [] \<and> filter P xs ! 0 = xs ! n"
    proof (rule Cons.IH)
      show "n < length xs" using Cons.prems Suc by simp
      show "P (xs ! n)" using Cons.prems Suc by simp
      show "\<forall>j<n. \<not> P (xs ! j)" using Cons.prems(3) Suc by auto
    qed
    with nx Suc show ?thesis by simp
  qed
qed

lemma trim_Nil: "trim [] = []"
  by (simp add: trim_def)

lemma getClientIP_cf:
  "truthy (headers request ''cf-connecting-ip'') \<Longrightarrow>
   getClientIP request = the (headers request ''cf-connecting-ip'')"
  by (simp add: getClientIP_def)

lemma getClientIP_real:
  "\<not> truthy (headers request ''cf-connecting-ip'') \<Longrightarrow> truthy (headers request ''x-real-ip'') \<Longrightarrow>
   getClientIP request = the (headers request ''x-real-ip'')"
  by (simp add: getClientIP_def)

lemma getClientIP_forwarded:
  "\<not> truthy (headers request ''cf-connecting-ip'') \<Longrightarrow> \<not> truthy (headers request ''x-real-ip'') \<Longrightarrow>
   getClientIP request =
     (case headers request ''x-forwarded-for'' of
        None \<Rightarrow> ''127.0.0.1''
      | Some f \<Rightarrow>
          (case filter (\<lambda>p. p \<noteq> []) (map trim (split (CHR '','') f)) of
             [] \<Rightarrow> ''127.0.0.1''
           | p # ps \<Rightarrow> p))"
  by (auto simp: getClientIP_def truthy_def split_def trim_Nil Let_def
      split: option.splits list.splits)

lemma first_of_filter:
  "(case filter P xs of [] \<Rightarrow> d | p # ps \<Rightarrow> p) = (case find P xs of None \<Rightarrow> d | Some p \<Rightarrow> p)"
  by (induction xs) auto

text \<open>
  Claim C9 as stated, on empty values. A \<open>cf-connecting-ip\<close> header that is present with
  an empty value is passed over and the \<open>x-real-ip\<close> value is returned. The first entry
  of the forwarded-for value \<open>, 10.0.0.1\<close> is empty, and the second entry is returned. A
  forwarded-for header that is present with the value \<open>,\<close> gives the fallback.
\<close>

theorem getClientIP_empty_values_counterexample:
  "getClientIP \<lparr>headers = [''cf-connecting-ip'' \<mapsto> '''', ''x-real-ip'' \<mapsto> ''10.0.0.1'']\<rparr> = ''10.0.0.1'' \<and>
   getClientIP \<lparr>headers = [''x-forwarded-for'' \<mapsto> '', 10.0.0.1'']\<rparr> = ''10.0.0.1'' \<and>
   hd (split (CHR '','') '', 10.0.0.1'') = '''' \<and>
   getClientIP \<lparr>headers = [''x-forwarded-for'' \<mapsto> '','']\<rparr> = ''127.0.0.1''"
  by (simp add: getClientIP_def truthy_def split_def trim_def is_space_def)


text \<open>
  Claim C9, amended. \<open>getClientIP\<close> returns the value of \<open>cf-connecting-ip\<close> when that header
  is present and not empty; else the value of \<open>x-real-ip\<close> when present and not empty; else
  the first entry of the comma-separated \<open>x-forwarded-for\<close> value that is not empty after
  trimming, trimmed, when the header is present and has such an entry; else \<open>127.0.0.1\<close>.
\<close>

theorem getClientIP_precedence:
  "(\<forall>v. headers request ''cf-connecting-ip'' = Some v \<and> v \<noteq> [] \<longrightarrow> getClientIP request = v) \<and>
   (\<forall>v. (headers request ''cf-connecting-ip'' = None \<or>
         headers request ''cf-connecting-ip'' = Some []) \<and>
        headers request ''x-real-ip'' = Some v \<and> v \<noteq> [] \<longrightarrow> getClientIP request = v) \<and>
   ((headers request ''cf-connecting-ip'' = None \<or>
     headers request ''cf-connecting-ip'' = Some []) \<and>
    (headers request ''x-real-ip'' = None \<or> headers request ''x-real-ip'' = Some []) \<longrightarrow>
    getClientIP request =
      (case headers request ''x-forwarded-for'' of
         None \<Rightarrow> ''127.0.0.1''
       | Some f \<Rightarrow>
           (case find (\<lambda>p. p \<noteq> []) (map trim (split (CHR '','') f)) of
              None \<Rightarrow> ''127.0.0.1''
            | Some p \<Rightarrow> p)))"
proof (intro conjI allI impI)
  fix v assume "headers request ''cf-connecting-ip'' = Some v \<and> v \<noteq> []"
  then show "getClientIP request = v"
    using getClientIP_cf [of request] by (simp add: truthy_def)
next
  fix v
  assume "(headers request ''cf-connecting-ip'' = None \<or>
           headers request ''cf-connecting-ip'' = Some []) \<and>
          headers request ''x-real-ip'' = Some v \<and> v \<noteq> []"
  then show "getClientIP request = v"
    using getClientIP_real [of request] by (auto simp: truthy_def)
next
  assume a: "(headers request ''cf-connecting-ip'' = None \<or>
     headers request ''cf-connecting-ip'' = Some []) \<and>
    (headers request ''x-real-ip'' = None \<or> headers request ''x-real-ip'' = Some [])"
  from a have "\<not> truthy (headers request ''cf-connecting-ip'')"
    and "\<not> truthy (headers request ''x-real-ip'')"
    by (auto simp: truthy_def)
  then show "getClientIP request =
      (case headers request ''x-forwarded-for'' of
         None \<Rightarrow> ''127.0.0.1''
       | Some f \<Rightarrow>
           (case find (\<lambda>p. p \<noteq> []) (map trim (split (CHR '','') f)) of
              None \<Rightarrow> ''127.0.0.1''
            | Some p \<Rightarrow> p))"
    by (simp add: getClientIP_forwarded first_of_filter split: option.splits)
qed

theorem getClientIP_precedence_witness:
  "getClientIP \<lparr>headers = [''cf-connecting-ip'' \<mapsto> ''203.0.113.7'', ''x-real-ip'' \<mapsto> ''10.0.0.1'',
       ''x-forwarded-for'' \<mapsto> ''192.168.1.100, 10.0.0.2'']\<rparr> = ''203.0.113.7'' \<and>
   getClientIP \<lparr>headers = [''x-real-ip'' \<mapsto> ''10.0.0.1'',
       ''x-forwarded-for'' \<mapsto> ''192.168.1.100, 10.0.0.2'']\<rparr> = ''10.0.0.1'' \<and>
   getClientIP \<lparr>headers = [''x-forwarded-for'' \<mapsto> ''192.168.1.100, 10.0.0.2'']\<rparr> =
     ''192.168.1.100'' \<and>
   getClientIP \<lparr>headers = Map.empty\<rparr> = ''127.0.0.1''"
proof -
  let ?r1 = "\<lparr>headers = [''cf-connecting-ip'' \<mapsto> ''203.0.113.7'', ''x-real-ip'' \<mapsto> ''10.0.0.1'',
       ''x-forwarded-for'' \<mapsto> ''192.168.1.100, 10.0.0.2'']\<rparr>"
  let ?r2 = "\<lparr>headers = [''x-real-ip'' \<mapsto> ''10.0.0.1'',
       ''x-forwarded-for'' \<mapsto> ''192.168.1.100, 10.0.0.2'']\<rparr>"
  let ?r3 = "\<lparr>headers = [''x-forwarded-for'' \<mapsto> ''192.168.1.100, 10.0.0.2'']\<rparr>"
  let ?r4 = "\<lparr>headers = (Map.empty :: Headers)\<rparr>"
  have 1: "getClientIP ?r1 = ''203.0.113.7''"
    by (rule getClientIP_precedence [of ?r1, THEN conjunct1, rule_format]) simp
  have 2: "getClientIP ?r2 = ''10.0.0.1''"
    by (rule getClientIP_precedence [of ?r2, THEN conjunct2, THEN conjunct1, rule_format]) simp
  have 3: "getClientIP ?r3 = ''192.168.1.100''"
    using getClientIP_precedence [of ?r3, THEN conjunct2, THEN conjunct2]
    by (simp add: split_def trim_def is_space_def)
  have 4: "getClientIP ?r4 = ''127.0.0.1''"
    using getClientIP_precedence [of ?r4, THEN conjunct2, THEN conjunct2] by simp
  from 1 2 3 4 show ?thesis by simp
qed

text \<open>
  Claim C10. With \<open>cf-connecting-ip\<close> and \<open>x-real-ip\<close> both absent, \<open>getClientIP\<close> splits
  \<open>x-forwarded-for\<close> at the commas, trims every entry and returns the first entry that is
  not empty after trimming (entry \<open>i\<close>, when all entries before it trim to the empty
  string); when the header is absent or every entry trims to the empty string it returns
  \<open>127.0.0.1\<close>.
\<close>

theorem forwarded_for_first_nonempty:
  assumes "headers request ''cf-connecting-ip'' = None"
    and "headers request ''x-real-ip'' = None"
  shows "(\<forall>f i. headers request ''x-forwarded-for'' = Some f \<and>
            i < length (split (CHR '','') f) \<and> trim (split (CHR '','') f ! i) \<noteq> [] \<and>
            (\<forall>j<i. trim (split (CHR '','') f ! j) = []) \<longrightarrow>
            getClientIP request = trim (split (CHR '','') f ! i)) \<and>
         (headers request ''x-forwarded-for'' = None \<or>
          (\<exists>f. headers request ''x-forwarded-for'' = Some f \<and>
               (\<forall>p \<in> set (split (CHR '','') f). trim p = [])) \<longrightarrow>
          getClientIP request = ''127.0.0.1'')"
proof -
  have nt: "\<not> truthy (headers request ''cf-connecting-ip'')" "\<not> truthy (headers request ''x-real-ip'')"
    using assms by (simp_all add: truthy_def)
  note g = getClientIP_forwarded [OF nt]
  have 1: "getClientIP request = trim (split (CHR '','') f ! i)"
    if h: "headers request ''x-forwarded-for'' = Some f"
      and i: "i < length (split (CHR '','') f)"
      and ne: "trim (split (CHR '','') f ! i) \<noteq> []"
      and first: "\<forall>j<i. trim (split (CHR '','') f ! j) = []" for f i
  proof -
    let ?xs = "map trim (split (CHR '','') f)"
    have "filter (\<lambda>p. p \<noteq> []) ?xs \<noteq> [] \<and> filter (\<lambda>p. p \<noteq> []) ?xs ! 0 = ?xs ! i"
    proof (rule first_filter)
      show "i < length ?xs" using i by simp
      show "?xs ! i \<noteq> []" using i ne by simp
      show "\<forall>j<i. \<not> ?xs ! j \<noteq> []" using i first by simp
    qed
    then obtain p ps where "filter (\<lambda>p. p \<noteq> []) ?xs = p # ps" and "p = ?xs ! i"
      by (cases "filter (\<lambda>p. p \<noteq> []) ?xs") auto
    then show ?thesis using g h i by simp
  qed
  have 2: "getClientIP request = ''127.0.0.1''"
    if "headers request ''x-forwarded-for'' = None \<or>
          (\<exists>f. headers request ''x-forwarded-for'' = Some f \<and>
               (\<forall>p \<in> set (split (CHR '','') f). trim p = []))"
  proof (cases "headers request ''x-forwarded-for''")
    case None
    then show ?thesis using g by simp
  next
    case (Some f)
    with that have "\<forall>p \<in> set (split (CHR '','') f). trim p = []" by simp
    then have "filter (\<lambda>p. p \<noteq> []) (map trim (split (CHR '','') f)) = []"
      by (simp add: filter_empty_conv)
    then show ?thesis using g Some by simp
  qed
  from 1 2 show ?thesis by blast
qed

theorem forwarded_for_first_nonempty_witness:
  "split (CHR '','') '' , 10.0.0.1 ,10.0.0.2'' = ['' '', '' 10.0.0.1 '', ''10.0.0.2''] \<and>
   trim '' '' = [] \<and> trim '' 10.0.0.1 '' = ''10.0.0.1'' \<and>
   getClientIP \<lparr>headers = [''x-forwarded-for'' \<mapsto> '' , 10.0.0.1 ,10.0.0.2'']\<rparr> = ''10.0.0.1'' \<and>
   getClientIP \<lparr>headers = [''x-forwarded-for'' \<mapsto> '' , '']\<rparr> = ''127.0.0.1'' \<and>
   getClientIP \<lparr>headers = Map.empty\<rparr> = ''127.0.0.1''"
proof -
  let ?f = "'' , 10.0.0.1 ,10.0.0.2''"
  let ?r1 = "\<lparr>headers = [''x-forwarded-for'' \<mapsto> ?f]\<rparr>"
  let ?r2 = "\<lparr>headers = [''x-forwarded-for'' \<mapsto> '' , '']\<rparr>"
  let ?r3 = "\<lparr>headers = (Map.empty :: Headers)\<rparr>"
  have s1: "split (CHR '','') ?f = ['' '', '' 10.0.0.1 '', ''10.0.0.2'']"
    by (simp add: split_def)
  have s2: "split (CHR '','') '' , '' = ['' '', '' '']"
    by (simp add: split_def)
  have t1: "trim '' '' = []" by (simp add: trim_def is_space_def)
  have t2: "trim '' 10.0.0.1 '' = ''10.0.0.1''" by (simp add: trim_def is_space_def)
  have a1: "headers ?r1 ''cf-connecting-ip'' = None" "headers ?r1 ''x-real-ip'' = None" by simp_all
  have a2: "headers ?r2 ''cf-connecting-ip'' = None" "headers ?r2 ''x-real-ip'' = None" by simp_all
  have a3: "headers ?r3 ''cf-connecting-ip'' = None" "headers ?r3 ''x-real-ip'' = None" by simp_all
  have 1: "getClientIP ?r1 = trim (split (CHR '','') ?f ! 1)"
    by (rule forwarded_for_first_nonempty [OF a1, THEN conjunct1, rule_format]) (simp add: s1 t1 t2)
  have 2: "getClientIP ?r2 = ''127.0.0.1''"
    by (rule forwarded_for_first_nonempty [OF a2, THEN conjunct2, rule_format]) (simp add: s2 t1)
  have 3: "getClientIP ?r3 = ''127.0.0.1''"
    by (rule forwarded_for_first_nonempty [OF a3, THEN conjunct2, rule_format]) simp
  from 1 2 3 s1 t1 t2 show ?thesis by simp
qed

subsection \<open>Distinct keys do not affect each other\<close>

text \<open>
  Claim C6 as stated, for every sequential interleaving, when the clock steps back. From the
  reset state, with \<open>maxRequests = 1\<close> and \<open>windowMs = 600000\<close>: a call for \<open>10.0.0.2\<close> at
  400000 opens a window with \<open>resetTime = 1000000\<close>; a call for \<open>10.0.0.1\<close> at 1000001
  sweeps and deletes that window; a second call for \<open>10.0.0.2\<close>, which reads the earlier time
  1000000, then finds no entry and is admitted. Run alone, the second call for \<open>10.0.0.2\<close>
  at 1000000 finds its window live and exhausted and is rejected.
\<close>

theorem clock_step_back_counterexample:
  "results_of ''10.0.0.2''
     [\<lparr>ident = ''10.0.0.2'', cfg = \<lparr>maxRequests = 1, windowMs = 600000\<rparr>, at = 400000\<rparr>,
      \<lparr>ident = ''10.0.0.1'', cfg = \<lparr>maxRequests = 1, windowMs = 600000\<rparr>, at = 1000001\<rparr>,
      \<lparr>ident = ''10.0.0.2'', cfg = \<lparr>maxRequests = 1, windowMs = 600000\<rparr>, at = 1000000\<rparr>]
     (fst (run_calls testResetRateLimit
       [\<lparr>ident = ''10.0.0.2'', cfg = \<lparr>maxRequests = 1, windowMs = 600000\<rparr>, at = 400000\<rparr>,
        \<lparr>ident = ''10.0.0.1'', cfg = \<lparr>maxRequests = 1, windowMs = 600000\<rparr>, at = 1000001\<rparr>,
        \<lparr>ident = ''10.0.0.2'', cfg = \<lparr>maxRequests = 1, windowMs = 600000\<rparr>, at = 1000000\<rparr>])) =
     [\<lparr>success = True, remaining = 0, reset = 1000000\<rparr>,
      \<lparr>success = True, remaining = 0, reset = 1600000\<rparr>] \<and>
   fst (run_calls testResetRateLimit
     (filter (\<lambda>c. ident c = ''10.0.0.2'')
       [\<lparr>ident = ''10.0.0.2'', cfg = \<lparr>maxRequests = 1, windowMs = 600000\<rparr>, at = 400000\<rparr>,
        \<lparr>ident = ''10.0.0.1'', cfg = \<lparr>maxRequests = 1, windowMs = 600000\<rparr>, at = 1000001\<rparr>,
        \<lparr>ident = ''10.0.0.2'', cfg = \<lparr>maxRequests = 1, windowMs = 600000\<rparr>, at = 1000000\<rparr>])) =
     [\<lparr>success = True, remaining = 0, reset = 1000000\<rparr>,
      \<lparr>success = False, remaining = 0, reset = 1000000\<rparr>]"
  by (simp add: results_of_def testResetRateLimit_def checkRateLimit_local_def lazyCleanup_def
      admit_def Let_def)

text \<open>
  Claim C6, amended. In a run of sequential calls in which the clock does not go backwards
  (the times read by the calls are non-decreasing), the results returned to the calls of a
  key \<open>k\<close> are the results of running the calls of \<open>k\<close> alone, at the same times and from
  the same state, whatever calls for other keys are interleaved. And a single call for
  another key \<open>k1\<close>, at any time, leaves a live entry of \<open>k\<close> (\<open>now \<le> resetTime\<close>) as it
  is, count and \<open>resetTime\<close>.
\<close>

theorem distinct_keys_independent:
  assumes "unique_keys s" and "sorted (map at cs)"
  shows "results_of k cs (fst (run_calls s cs)) =
           fst (run_calls s (filter (\<lambda>c. ident c = k) cs)) \<and>
         (\<forall>k1 c now e. k1 \<noteq> k \<and> map_of (rateLimitStore s) k = Some e \<and> now \<le> resetTime e \<longrightarrow>
            map_of (rateLimitStore (snd (checkRateLimit_local k1 c now s))) k = Some e)"
proof
  show "results_of k cs (fst (run_calls s cs)) =
           fst (run_calls s (filter (\<lambda>c. ident c = k) cs))"
  proof (cases cs)
    case Nil
    then show ?thesis by (simp add: results_of_Nil)
  next
    case (Cons c cs')
    have "\<forall>d \<in> set cs. at c \<le> at d" using assms(2) Cons by auto
    from interleaving [OF assms(1) assms(1) same_window_refl assms(2) this]
    show ?thesis .
  qed
next
  show "\<forall>k1 c now e. k1 \<noteq> k \<and> map_of (rateLimitStore s) k = Some e \<and> now \<le> resetTime e \<longrightarrow>
            map_of (rateLimitStore (snd (checkRateLimit_local k1 c now s))) k = Some e"
  proof (intro allI impI)
    fix k1 c now e
    assume a: "k1 \<noteq> k \<and> map_of (rateLimitStore s) k = Some e \<and> now \<le> resetTime e"
    then show "map_of (rateLimitStore (snd (checkRateLimit_local k1 c now s))) k = Some e"
      using local_other [OF assms(1), of k1 k c now]
      by (auto simp: expired_or_absent_def)
  qed
qed

theorem distinct_keys_independent_witness:
  "unique_keys testResetRateLimit \<and>
   sorted (map at
     [\<lparr>ident = ''10.0.0.1'', cfg = \<lparr>maxRequests = 2, windowMs = 3600000\<rparr>, at = 1000000\<rparr>,
      \<lparr>ident = ''10.0.0.2'', cfg = \<lparr>maxRequests = 2, windowMs = 3600000\<rparr>, at = 1000001\<rparr>,
      \<lparr>ident = ''10.0.0.1'', cfg = \<lparr>maxRequests = 2, windowMs = 3600000\<rparr>, at = 1000002\<rparr>,
      \<lparr>ident = ''10.0.0.2'', cfg = \<lparr>maxRequests = 2, windowMs = 3600000\<rparr>, at = 1000003\<rparr>,
      \<lparr>ident = ''10.0.0.1'', cfg = \<lparr>maxRequests = 2, windowMs = 3600000\<rparr>, at = 1000004\<rparr>]) \<and>
   results_of ''10.0.0.1''
     [\<lparr>ident = ''10.0.0.1'', cfg = \<lparr>maxRequests = 2, windowMs = 3600000\<rparr>, at = 1000000\<rparr>,
      \<lparr>ident = ''10.0.0.2'', cfg = \<lparr>maxRequests = 2, windowMs = 3600000\<rparr>, at = 1000001\<rparr>,
      \<lparr>ident = ''10.0.0.1'', cfg = \<lparr>maxRequests = 2, windowMs = 3600000\<rparr>, at = 1000002\<rparr>,
      \<lparr>ident = ''10.0.0.2'', cfg = \<lparr>maxRequests = 2, windowMs = 3600000\<rparr>, at = 1000003\<rparr>,
      \<lparr>ident = ''10.0.0.1'', cfg = \<lparr>maxRequests = 2, windowMs = 3600000\<rparr>, at = 1000004\<rparr>]
     (fst (run_calls testResetRateLimit
     [\<lparr>ident = ''10.0.0.1'', cfg = \<lparr>maxRequests = 2, windowMs = 3600000\<rparr>, at = 1000000\<rparr>,
      \<lparr>ident = ''10.0.0.2'', cfg = \<lparr>maxRequests = 2, windowMs = 3600000\<rparr>, at = 1000001\<rparr>,
      \<lparr>ident = ''10.0.0.1'', cfg = \<lparr>maxRequests = 2, windowMs = 3600000\<rparr>, at = 1000002\<rparr>,
      \<lparr>ident = ''10.0.0.2'', cfg = \<lparr>maxRequests = 2, windowMs = 3600000\<rparr>, at = 1000003\<rparr>,
      \<lparr>ident = ''10.0.0.1'', cfg = \<lparr>maxRequests = 2, windowMs = 3600000\<rparr>, at = 1000004\<rparr>])) =
   [\<lparr>success = True, remaining = 1, reset = 4600000\<rparr>,
    \<lparr>success = True, remaining = 0, reset = 4600000\<rparr>,
    \<lparr>success = False, remaining = 0, reset = 4600000\<rparr>] \<and>
   map_of (rateLimitStore (snd (checkRateLimit_local ''10.0.0.2''
       \<lparr>maxRequests = 2, windowMs = 3600000\<rparr> 4600000
       \<lparr>rateLimitStore = [(''10.0.0.1'', \<lparr>count = 1, resetTime = 4600000\<rparr>)],
        lastCleanup = 1000000\<rparr>))) ''10.0.0.1'' =
     Some \<lparr>count = 1, resetTime = 4600000\<rparr>"
proof -
  let ?c = "\<lparr>maxRequests = 2, windowMs = 3600000\<rparr>"
  let ?cs = "[\<lparr>ident = ''10.0.0.1'', cfg = ?c, at = 1000000\<rparr>,
      \<lparr>ident = ''10.0.0.2'', cfg = ?c, at = 1000001\<rparr>,
      \<lparr>ident = ''10.0.0.1'', cfg = ?c, at = 1000002\<rparr>,
      \<lparr>ident = ''10.0.0.2'', cfg = ?c, at = 1000003\<rparr>,
      \<lparr>ident = ''10.0.0.1'', cfg = ?c, at = 1000004\<rparr>]"
  have srt: "sorted (map at ?cs)" by simp
  have alone: "fst (run_calls testResetRateLimit (filter (\<lambda>c. ident c = ''10.0.0.1'') ?cs)) =
     [\<lparr>success = True, remaining = 1, reset = 4600000\<rparr>,
      \<lparr>success = True, remaining = 0, reset = 4600000\<rparr>,
      \<lparr>success = False, remaining = 0, reset = 4600000\<rparr>]"
    by (simp add: testResetRateLimit_def checkRateLimit_local_def lazyCleanup_def admit_def Let_def)
  from distinct_keys_independent [OF unique_keys_reset srt, of "''10.0.0.1''", THEN conjunct1] alone
  have "results_of ''10.0.0.1'' ?cs (fst (run_calls testResetRateLimit ?cs)) =
     [\<lparr>success = True, remaining = 1, reset = 4600000\<rparr>,
      \<lparr>success = True, remaining = 0, reset = 4600000\<rparr>,
      \<lparr>success = False, remaining = 0, reset = 4600000\<rparr>]"
    by (simp only:)
  moreover
  let ?s = "\<lparr>rateLimitStore = [(''10.0.0.1'', \<lparr>count = 1, resetTime = 4600000\<rparr>)],
        lastCleanup = 1000000\<rparr>"
  have u: "unique_keys ?s" by (simp add: unique_keys_def)
  have e: "sorted (map at ([] :: Call list))" by simp
  have "map_of (rateLimitStore (snd (checkRateLimit_local ''10.0.0.2'' ?c 4600000 ?s)))
          ''10.0.0.1'' = Some \<lparr>count = 1, resetTime = 4600000\<rparr>"
    by (rule distinct_keys_independent [OF u e, THEN conjunct2, rule_format]) simp
  ultimately show ?thesis using unique_keys_reset srt by blast
qed

subsection \<open>The quota of one window\<close>

lemma run_live:
  assumes "unique_keys s"
    and "map_of (rateLimitStore s) k = Some \<lparr>count = n, resetTime = r\<rparr>"
    and "\<forall>u \<in> set ts. u \<le> r"
    and "n + int (length ts) \<le> maxRequests c"
  shows "fst (run_calls s (map (\<lambda>u. \<lparr>ident = k, cfg = c, at = u\<rparr>) ts)) =
           map (\<lambda>i. \<lparr>success = True, remaining = maxRequests c - (n + int i + 1), reset = r\<rparr>)
             [0..<length ts] \<and>
         unique_keys (snd (run_calls s (map (\<lambda>u. \<lparr>ident = k, cfg = c, at = u\<rparr>) ts))) \<and>
         map_of (rateLimitStore (snd (run_calls s (map (\<lambda>u. \<lparr>ident = k, cfg = c, at = u\<rparr>) ts)))) k =
           Some \<lparr>count = n + int (length ts), resetTime = r\<rparr>"
  using assms
proof (induction ts arbitrary: s n)
  case Nil
  then show ?case by simp
next
  case (Cons u us)
  let ?e = "\<lparr>count = n, resetTime = r\<rparr>"
  let ?s = "snd (checkRateLimit_local k c u s)"
  have live: "\<not> u > resetTime ?e" using Cons.prems(3) by simp
  have lt: "\<not> count ?e \<ge> maxRequests c" using Cons.prems(4) by simp
  from local_live [OF Cons.prems(1,2) live, of c] lt
  have r: "fst (checkRateLimit_local k c u s) =
             \<lparr>success = True, remaining = maxRequests c - (n + 1), reset = r\<rparr>"
    and l: "map_of (rateLimitStore ?s) k = Some \<lparr>count = n + 1, resetTime = r\<rparr>"
    by simp_all
  have w: "unique_keys ?s" using Cons.prems(1) by (rule unique_keys_checkRateLimit_local)
  have b: "\<forall>v \<in> set us. v \<le> r" using Cons.prems(3) by simp
  have q: "(n + 1) + int (length us) \<le> maxRequests c" using Cons.prems(4) by simp
  note ih = Cons.IH [OF w l b q]
  have m: "map (\<lambda>i. \<lparr>success = True, remaining = maxRequests c - (n + int i + 1), reset = r\<rparr>)
             [0..<length (u # us)] =
           \<lparr>success = True, remaining = maxRequests c - (n + 1), reset = r\<rparr> #
           map (\<lambda>i. \<lparr>success = True, remaining = maxRequests c - (n + 1 + int i + 1), reset = r\<rparr>)
             [0..<length us]"
    by (simp add: map_upt_Suc algebra_simps del: upt_Suc)
  show ?case
    using ih r unfolding m
    by (simp add: run_calls_Cons algebra_simps del: run_calls.simps(2))
qed

text \<open>
  Claim C1 as stated, for \<open>N\<close> below \<open>maxRequests\<close>. With \<open>maxRequests = 3\<close> and \<open>N = 1\<close>
  the call number \<open>N + 1\<close> in the same window is admitted, with \<open>remaining = 1\<close>: only the
  call after \<open>maxRequests\<close> admitted ones is rejected.
\<close>

theorem second_call_admitted_counterexample:
  "fst (run_calls testResetRateLimit
     [\<lparr>ident = ''192.168.1.100'', cfg = \<lparr>maxRequests = 3, windowMs = 3600000\<rparr>, at = 1000000\<rparr>,
      \<lparr>ident = ''192.168.1.100'', cfg = \<lparr>maxRequests = 3, windowMs = 3600000\<rparr>, at = 1000001\<rparr>]) =
   [\<lparr>success = True, remaining = 2, reset = 4600000\<rparr>,
    \<lparr>success = True, remaining = 1, reset = 4600000\<rparr>]"
  by (simp add: testResetRateLimit_def checkRateLimit_local_def lazyCleanup_def admit_def Let_def)

text \<open>
  Claim C1, amended. Let the first call for a key arrive at \<open>t\<close> when the key has no live
  window, and let \<open>N\<close> calls in all, \<open>N \<le> maxRequests\<close>, arrive within the window it opens
  (at times up to \<open>t + windowMs\<close>). Every call is admitted, call number \<open>i\<close> (from 1)
  returns \<open>remaining = maxRequests - i\<close>, so the last one returns \<open>maxRequests - N\<close>, and
  all report \<open>reset = t + windowMs\<close>. When \<open>N = maxRequests\<close>, the call number \<open>N + 1\<close> in
  the same window is rejected with \<open>remaining = 0\<close> and the same \<open>reset\<close>.
\<close>

theorem quota_within_one_window:
  assumes "unique_keys s"
    and "expired_or_absent t (map_of (rateLimitStore s) key)"
    and "\<forall>u \<in> set ts. u \<le> t + windowMs config"
    and "1 + int (length ts) \<le> maxRequests config"
  shows "fst (run_calls s (map (\<lambda>u. \<lparr>ident = key, cfg = config, at = u\<rparr>) (t # ts))) =
           map (\<lambda>i. \<lparr>success = True, remaining = maxRequests config - (int i + 1),
                     reset = t + windowMs config\<rparr>) [0..<length (t # ts)] \<and>
         (1 + int (length ts) = maxRequests config \<longrightarrow>
            (\<forall>u. u \<le> t + windowMs config \<longrightarrow>
               fst (checkRateLimit_local key config u
                 (snd (run_calls s (map (\<lambda>u. \<lparr>ident = key, cfg = config, at = u\<rparr>) (t # ts))))) =
               \<lparr>success = False, remaining = 0, reset = t + windowMs config\<rparr>))"
proof -
  let ?r = "t + windowMs config"
  let ?s1 = "snd (checkRateLimit_local key config t s)"
  let ?calls = "\<lambda>us. map (\<lambda>u. \<lparr>ident = key, cfg = config, at = u\<rparr>) us"
  from local_fresh [OF assms(2), of config]
  have r1: "fst (checkRateLimit_local key config t s) =
              \<lparr>success = True, remaining = maxRequests config - 1, reset = ?r\<rparr>"
    and l1: "map_of (rateLimitStore ?s1) key = Some \<lparr>count = 1, resetTime = ?r\<rparr>"
    by simp_all
  have w1: "unique_keys ?s1" using assms(1) by (rule unique_keys_checkRateLimit_local)
  note rest = run_live [OF w1 l1 assms(3,4)]
  have m: "map (\<lambda>i. \<lparr>success = True, remaining = maxRequests config - (int i + 1), reset = ?r\<rparr>)
             [0..<length (t # ts)] =
           \<lparr>success = True, remaining = maxRequests config - 1, reset = ?r\<rparr> #
           map (\<lambda>i. \<lparr>success = True, remaining = maxRequests config - (1 + int i + 1), reset = ?r\<rparr>)
             [0..<length ts]"
    by (simp add: map_upt_Suc algebra_simps del: upt_Suc)
  have first: "fst (run_calls s (?calls (t # ts))) =
           map (\<lambda>i. \<lparr>success = True, remaining = maxRequests config - (int i + 1), reset = ?r\<rparr>)
             [0..<length (t # ts)]"
    unfolding m using rest r1
    by (simp add: run_calls_Cons del: run_calls.simps(2))
  have fin: "snd (run_calls s (?calls (t # ts))) = snd (run_calls ?s1 (?calls ts))"
    by (simp add: run_calls_Cons del: run_calls.simps(2))
  have second: "fst (checkRateLimit_local key config u (snd (run_calls s (?calls (t # ts))))) =
               \<lparr>success = False, remaining = 0, reset = ?r\<rparr>"
    if full: "1 + int (length ts) = maxRequests config" and u: "u \<le> ?r" for u
  proof -
    let ?e = "\<lparr>count = 1 + int (length ts), resetTime = ?r\<rparr>"
    have w: "unique_keys (snd (run_calls ?s1 (?calls ts)))" using rest by simp
    have l: "map_of (rateLimitStore (snd (run_calls ?s1 (?calls ts)))) key = Some ?e"
      using rest by simp
    have live: "\<not> u > resetTime ?e" using u by simp
    from local_live [OF w l live, of config] full show ?thesis
      unfolding fin by simp
  qed
  from first second show ?thesis by blast
qed

theorem quota_within_one_window_witness:
  "unique_keys testResetRateLimit \<and>
   expired_or_absent 1000000 (map_of (rateLimitStore testResetRateLimit) ''192.168.1.100'') \<and>
   fst (run_calls testResetRateLimit
     [\<lparr>ident = ''192.168.1.100'', cfg = \<lparr>maxRequests = 3, windowMs = 3600000\<rparr>, at = 1000000\<rparr>,
      \<lparr>ident = ''192.168.1.100'', cfg = \<lparr>maxRequests = 3, windowMs = 3600000\<rparr>, at = 1000001\<rparr>,
      \<lparr>ident = ''192.168.1.100'', cfg = \<lparr>maxRequests = 3, windowMs = 3600000\<rparr>, at = 1000002\<rparr>]) =
   [\<lparr>success = True, remaining = 2, reset = 4600000\<rparr>,
    \<lparr>success = True, remaining = 1, reset = 4600000\<rparr>,
    \<lparr>success = True, remaining = 0, reset = 4600000\<rparr>] \<and>
   fst (checkRateLimit_local ''192.168.1.100'' \<lparr>maxRequests = 3, windowMs = 3600000\<rparr> 1000003
     (snd (run_calls testResetRateLimit
       [\<lparr>ident = ''192.168.1.100'', cfg = \<lparr>maxRequests = 3, windowMs = 3600000\<rparr>, at = 1000000\<rparr>,
        \<lparr>ident = ''192.168.1.100'', cfg = \<lparr>maxRequests = 3, windowMs = 3600000\<rparr>, at = 1000001\<rparr>,
        \<lparr>ident = ''192.168.1.100'', cfg = \<lparr>maxRequests = 3, windowMs = 3600000\<rparr>, at = 1000002\<rparr>]))) =
   \<lparr>success = False, remaining = 0, reset = 4600000\<rparr>"
proof -
  let ?c = "\<lparr>maxRequests = 3, windowMs = 3600000\<rparr>"
  let ?k = "''192.168.1.100''"
  have a: "expired_or_absent 1000000 (map_of (rateLimitStore testResetRateLimit) ?k)"
    by (simp add: expired_or_absent_def testResetRateLimit_def)
  have b: "\<forall>u \<in> set [1000001, 1000002]. u \<le> 1000000 + windowMs ?c" by simp
  have n: "1 + int (length [1000001, 1000002 :: int]) \<le> maxRequests ?c" by simp
  note t = quota_within_one_window [OF unique_keys_reset a b n]
  have u: "[0..<length [1000000, 1000001, 1000002 :: int]] = [0, 1, 2]"
    by (simp add: upt_rec)
  have 1: "fst (run_calls testResetRateLimit
     [\<lparr>ident = ?k, cfg = ?c, at = 1000000\<rparr>, \<lparr>ident = ?k, cfg = ?c, at = 1000001\<rparr>,
      \<lparr>ident = ?k, cfg = ?c, at = 1000002\<rparr>]) =
   [\<lparr>success = True, remaining = 2, reset = 4600000\<rparr>,
    \<lparr>success = True, remaining = 1, reset = 4600000\<rparr>,
    \<lparr>success = True, remaining = 0, reset = 4600000\<rparr>]"
    using t [THEN conjunct1] unfolding u by simp
  have 2: "fst (checkRateLimit_local ?k ?c 1000003
     (snd (run_calls testResetRateLimit
       [\<lparr>ident = ?k, cfg = ?c, at = 1000000\<rparr>, \<lparr>ident = ?k, cfg = ?c, at = 1000001\<rparr>,
        \<lparr>ident = ?k, cfg = ?c, at = 1000002\<rparr>]))) =
   \<lparr>success = False, remaining = 0, reset = 4600000\<rparr>"
    using t [THEN conjunct2, rule_format, of 1000003] by simp
  from unique_keys_reset a 1 2 show ?thesis by blast
qed

end
